theory Spec2Isabelle
  imports Main
begin

section \<open>Python strings\<close>

text \<open>
  A Python \<^verbatim>\<open>str\<close> is a sequence of Unicode code points. The script depends on code
  points beyond one byte (the byte-order mark U+FEFF, the line and paragraph separators
  U+2028 and U+2029), so a string is modelled as the list of its code points.
  \<open>str\<close> turns an ASCII literal into that representation.
\<close>

type_synonym pystr = "nat list"

definition str :: "string \<Rightarrow> pystr" where
  "str s = map of_char s"

abbreviation TAB :: nat where "TAB \<equiv> 9"
abbreviation LF :: nat where "LF \<equiv> 10"
abbreviation CR :: nat where "CR \<equiv> 13"
abbreviation SPACE :: nat where "SPACE \<equiv> 32"
abbreviation DOLLAR :: nat where "DOLLAR \<equiv> 36"
abbreviation BACKSLASH :: nat where "BACKSLASH \<equiv> 92"
abbreviation BOM :: nat where "BOM \<equiv> 65279"

text \<open>\<^verbatim>\<open>s.startswith(p)\<close>.\<close>

fun startswith :: "pystr \<Rightarrow> pystr \<Rightarrow> bool" where
  "startswith s [] = True"
| "startswith [] (p # ps) = False"
| "startswith (c # cs) (p # ps) = (c = p \<and> startswith cs ps)"

text \<open>\<^verbatim>\<open>sub in s\<close>: \<open>sub\<close> occurs in \<open>s\<close> as a contiguous substring.\<close>

fun contains :: "pystr \<Rightarrow> pystr \<Rightarrow> bool" where
  "contains sub [] = (sub = [])"
| "contains sub (c # cs) = (startswith (c # cs) sub \<or> contains sub cs)"

text \<open>
  \<^verbatim>\<open>s.lower()\<close>. Python lowers a string code point by code point, each to one or
  more code points (only the choice between the two small sigmas looks at the
  neighbours). ASCII capitals move to their small letters and every other ASCII code
  point stays. Of the code points beyond ASCII only two have a lowercase form that
  contains an ASCII code point: U+0130 (to \<open>i\<close> followed by U+0307) and the Kelvin sign
  U+212A (to \<open>k\<close>). Every other one lowers to code points beyond ASCII again, and is
  left as it is here: the script only asks whether the lowered text contains a marker
  made of ASCII code points, and the answer is the same for both texts.
\<close>

definition lower_cp :: "nat \<Rightarrow> pystr" where
  "lower_cp c =
     (if 65 \<le> c \<and> c \<le> 90 then [c + 32]
      else if c = 304 then [105, 775]
      else if c = 8490 then [107]
      else [c])"

definition lower :: "pystr \<Rightarrow> pystr" where
  "lower s = concat (map lower_cp s)"

section \<open>Block normaliser: \<^verbatim>\<open>ensure_wrapped\<close>\<close>

text \<open>
  \<^verbatim>\<open>
  def ensure_wrapped(code):
      low = code.lower()
      if "@startuml" in low and "@enduml" in low:
          return code
      return f"@startuml\n{code}\n@enduml"
  \<close>
\<close>

definition ensure_wrapped :: "pystr \<Rightarrow> pystr" where
  "ensure_wrapped code =
     (let low = lower code in
      if contains (str ''@startuml'') low \<and> contains (str ''@enduml'') low then code
      else str ''@startuml\<newline>'' @ code @ str ''\<newline>@enduml'')"

section \<open>Math-escape transformer: \<^verbatim>\<open>escape_unescaped_dollars\<close>\<close>

text \<open>
  \<^verbatim>\<open>re.sub(r"(?<!\\)\$", r"\\$", s)\<close>: the pattern matches one \<open>$\<close> whose preceding
  character in the subject (if there is one) is not a backslash; every match is replaced
  by a backslash and a dollar. \<open>re_sub_dollar prev s\<close> scans \<open>s\<close> from left to right,
  \<open>prev\<close> being the subject's character just before the scanning position (\<open>None\<close> at
  the start of the subject, where the negative lookbehind succeeds).
\<close>

fun re_sub_dollar :: "nat option \<Rightarrow> pystr \<Rightarrow> pystr" where
  "re_sub_dollar prev [] = []"
| "re_sub_dollar prev (c # cs) =
     (if c = DOLLAR \<and> prev \<noteq> Some BACKSLASH
      then BACKSLASH # DOLLAR # re_sub_dollar (Some c) cs
      else c # re_sub_dollar (Some c) cs)"

definition escape_unescaped_dollars :: "pystr \<Rightarrow> pystr" where
  "escape_unescaped_dollars s = re_sub_dollar None s"

text \<open>
  Position \<open>i\<close> of \<open>s\<close> holds an unescaped dollar: a \<open>$\<close> that is not preceded by a
  backslash. The general form takes the character before the string as a parameter.
\<close>

definition unescaped_from :: "nat option \<Rightarrow> pystr \<Rightarrow> nat \<Rightarrow> bool" where
  "unescaped_from prev s i \<longleftrightarrow>
     i < length s \<and> s ! i = DOLLAR \<and>
     (if i = 0 then prev \<noteq> Some BACKSLASH else s ! (i - 1) \<noteq> BACKSLASH)"

definition unescaped_dollar_at :: "pystr \<Rightarrow> nat \<Rightarrow> bool" where
  "unescaped_dollar_at s i \<longleftrightarrow>
     i < length s \<and> s ! i = DOLLAR \<and> (i = 0 \<or> s ! (i - 1) \<noteq> BACKSLASH)"

section \<open>Header splitting and page breaks\<close>

text \<open>
  The code points at which \<^verbatim>\<open>str.splitlines\<close> ends a line, and the code points that
  \<^verbatim>\<open>str.strip\<close> removes (those for which \<^verbatim>\<open>str.isspace\<close> holds).
\<close>

definition is_linebreak :: "nat \<Rightarrow> bool" where
  "is_linebreak c \<longleftrightarrow> c \<in> {10, 11, 12, 13, 28, 29, 30, 133, 8232, 8233}"

definition is_space :: "nat \<Rightarrow> bool" where
  "is_space c \<longleftrightarrow>
     (9 \<le> c \<and> c \<le> 13) \<or> (28 \<le> c \<and> c \<le> 32) \<or> c = 133 \<or> c = 160 \<or> c = 5760 \<or>
     (8192 \<le> c \<and> c \<le> 8202) \<or> c = 8232 \<or> c = 8233 \<or> c = 8239 \<or> c = 8287 \<or> c = 12288"

text \<open>
  \<^verbatim>\<open>text.splitlines(keepends=True)\<close>: \<open>cur\<close> is the line read so far. A line ends at a
  line break, \<^verbatim>\<open>\r\n\<close> counting as one; the break stays with its line; a last line
  without a break is kept, an empty remainder gives no line.
\<close>

fun splitlines_from :: "pystr \<Rightarrow> pystr \<Rightarrow> pystr list" where
  "splitlines_from cur [] = (if cur = [] then [] else [cur])"
| "splitlines_from cur (c # cs) =
     (if is_linebreak c then
        (case cs of
           d # ds \<Rightarrow>
             if c = CR \<and> d = LF then (cur @ [CR, LF]) # splitlines_from [] ds
             else (cur @ [c]) # splitlines_from [] cs
         | [] \<Rightarrow> (cur @ [c]) # splitlines_from [] cs)
      else splitlines_from (cur @ [c]) cs)"

definition splitlines :: "pystr \<Rightarrow> pystr list" where
  "splitlines s = splitlines_from [] s"

text \<open>\<^verbatim>\<open>line.strip()\<close> and \<^verbatim>\<open>md_text.lstrip('\ufeff')\<close>.\<close>

definition strip :: "pystr \<Rightarrow> pystr" where
  "strip s = rev (dropWhile is_space (rev (dropWhile is_space s)))"

definition lstrip_bom :: "pystr \<Rightarrow> pystr" where
  "lstrip_bom s = dropWhile (\<lambda>c. c = BOM) s"

text \<open>\<^verbatim>\<open>line.strip() in ("---", "...")\<close>.\<close>

definition is_closing_delimiter :: "pystr \<Rightarrow> bool" where
  "is_closing_delimiter line \<longleftrightarrow> strip line = str ''---'' \<or> strip line = str ''...''"

text \<open>
  The loop of \<^verbatim>\<open>split_yaml_header\<close> over \<^verbatim>\<open>lines[1:]\<close>:
  \<^verbatim>\<open>
      for i, line in enumerate(lines[1:], start=1):
          if line.strip() in ("---", "..."):
              body_start_idx = i + 1
              break
          header.append(line)
  \<close>
  \<open>None\<close> stands for \<^verbatim>\<open>body_start_idx is None\<close> after the loop. Otherwise the result
  holds \<^verbatim>\<open>header\<close>, the closing line \<^verbatim>\<open>lines[body_start_idx - 1]\<close> and the lines
  \<^verbatim>\<open>lines[body_start_idx:]\<close>.
\<close>

fun scan_header :: "pystr list \<Rightarrow> pystr list \<Rightarrow> (pystr list \<times> pystr \<times> pystr list) option" where
  "scan_header header [] = None"
| "scan_header header (line # rest) =
     (if is_closing_delimiter line then Some (header, line, rest)
      else scan_header (header @ [line]) rest)"

text \<open>
  \<^verbatim>\<open>
  def split_yaml_header(md_text):
      text = md_text.lstrip('\ufeff')
      if text.startswith("---\n") or text.startswith("---\r\n"):
          lines = text.splitlines(keepends=True)
          ...
          if body_start_idx is not None:
              yaml_header = "---\n" + "".join(header) + lines[body_start_idx - 1]
              body = "".join(lines[body_start_idx:])
              return yaml_header, body
      return "", md_text
  \<close>
\<close>

definition opens_header :: "pystr \<Rightarrow> bool" where
  "opens_header text \<longleftrightarrow>
     startswith text (str ''---\<newline>'') \<or> startswith text (str ''---'' @ [CR, LF])"

definition split_yaml_header :: "pystr \<Rightarrow> pystr \<times> pystr" where
  "split_yaml_header md_text =
     (let text = lstrip_bom md_text in
      if opens_header text then
        (case scan_header [] (tl (splitlines text)) of
           Some (header, closing, rest) \<Rightarrow>
             (str ''---\<newline>'' @ concat header @ closing, concat rest)
         | None \<Rightarrow> ([], md_text))
      else ([], md_text))"

text \<open>
  The two conditions under which \<^verbatim>\<open>split_yaml_header\<close> reports a header: the text
  (after the byte-order marks are dropped) opens with a delimiter line, and one of the
  following lines is a closing delimiter.
\<close>

definition closing_found :: "pystr \<Rightarrow> bool" where
  "closing_found text \<longleftrightarrow> list_ex is_closing_delimiter (tl (splitlines text))"

definition header_detected :: "pystr \<Rightarrow> bool" where
  "header_detected md_text \<longleftrightarrow>
     opens_header (lstrip_bom md_text) \<and> closing_found (lstrip_bom md_text)"

text \<open>
  \<^verbatim>\<open>RE_PAGEBREAK_LINE = re.compile(r"^[ \t]*-{3}[ \t]*$", re.MULTILINE)\<close>.
  \<open>match_pagebreak s\<close> tries the pattern after its \<^verbatim>\<open>^\<close> at the start of \<open>s\<close> and
  returns what follows the match: blanks, three hyphens, blanks, and then the end of the
  subject or a line feed (\<^verbatim>\<open>$\<close> under \<^verbatim>\<open>MULTILINE\<close>). Neither star can give back a
  character to any use, so the greedy reading is the only one.
\<close>

definition is_blank :: "nat \<Rightarrow> bool" where
  "is_blank c \<longleftrightarrow> c = SPACE \<or> c = TAB"

definition match_pagebreak :: "pystr \<Rightarrow> pystr option" where
  "match_pagebreak s =
     (let s1 = dropWhile is_blank s in
      if startswith s1 (str ''---'') then
        (case dropWhile is_blank (drop 3 s1) of
           [] \<Rightarrow> Some []
         | c # cs \<Rightarrow> if c = LF then Some (c # cs) else None)
      else None)"

text \<open>The replacement template \<^verbatim>\<open>r"\n\\newpage\n"\<close>, expanded.\<close>

definition newpage :: pystr where
  "newpage = [LF, BACKSLASH] @ str ''newpage'' @ [LF]"

text \<open>
  \<^verbatim>\<open>RE_PAGEBREAK_LINE.sub(r"\n\\newpage\n", body)\<close>, scanning from left to right.
  \<open>bol\<close> says that \<^verbatim>\<open>^\<close> matches at the scanning position: at the start of the subject
  and right after a line feed. A match is replaced and the scan goes on behind it.
\<close>

function re_sub_pagebreak :: "bool \<Rightarrow> pystr \<Rightarrow> pystr" where
  "re_sub_pagebreak bol [] = []"
| "re_sub_pagebreak bol (c # cs) =
     (if bol then
        (case match_pagebreak (c # cs) of
           Some rest \<Rightarrow> newpage @ re_sub_pagebreak False rest
         | None \<Rightarrow> c # re_sub_pagebreak (c = LF) cs)
      else c # re_sub_pagebreak (c = LF) cs)"
  by pat_completeness auto
termination
proof (relation "measure (\<lambda>(bol, s). length s)")
  show "wf (measure (\<lambda>(bol, s). length s))" by simp
next
  fix bol :: bool and c :: nat and cs rest :: pystr
  assume "bol" and m: "match_pagebreak (c # cs) = Some rest"
  define s where "s = c # cs"
  define s1 where "s1 = dropWhile is_blank s"
  define s2 where "s2 = dropWhile is_blank (drop 3 s1)"
  have a: "length s1 \<le> length s"
    unfolding s1_def by (rule length_dropWhile_le)
  have nonempty: "\<And>t. startswith t (str ''---'') \<Longrightarrow> t \<noteq> []"
    by (auto simp: str_def)
  from m have m': "match_pagebreak s = Some rest" by (simp add: s_def)
  have sw: "startswith s1 (str ''---'')"
  proof (rule ccontr)
    assume "\<not> startswith s1 (str ''---'')"
    then have "match_pagebreak s = None"
      by (simp add: match_pagebreak_def Let_def s1_def)
    with m' show False by simp
  qed
  then have "s1 \<noteq> []" by (rule nonempty)
  then have shorter: "length (drop 3 s1) < length s1" by simp
  have b: "length s2 \<le> length (drop 3 s1)"
    unfolding s2_def by (rule length_dropWhile_le)
  from sw have eq: "match_pagebreak s =
      (case s2 of [] \<Rightarrow> Some [] | d # ds \<Rightarrow> if d = LF then Some (d # ds) else None)"
    by (simp add: match_pagebreak_def Let_def s1_def s2_def)
  have "rest = s2"
  proof (cases s2)
    case Nil
    with eq m' show ?thesis by simp
  next
    case (Cons d ds)
    with eq m' show ?thesis by (cases "d = LF") simp_all
  qed
  then have "length rest = length s2" by simp
  with shorter a b have "length rest < length s" by linarith
  then show "((False, rest), (bol, c # cs)) \<in> measure (\<lambda>(bol, s). length s)"
    by (simp add: s_def)
qed auto

text \<open>
  \<^verbatim>\<open>
  def apply_page_breaks(md_text):
      yaml_header, body = split_yaml_header(md_text)
      body = RE_PAGEBREAK_LINE.sub(r"\n\\newpage\n", body)
      return yaml_header + body
  \<close>
\<close>

definition apply_page_breaks :: "pystr \<Rightarrow> pystr" where
  "apply_page_breaks md_text =
     (case split_yaml_header md_text of
        (yaml_header, body) \<Rightarrow> yaml_header @ re_sub_pagebreak True body)"

text \<open>
  For stating what the transform does to a body, line by line: \<open>split_lf\<close> is
  \<^verbatim>\<open>body.split("\n")\<close>; a page-break line is a line of optional spaces or tabs, three
  hyphens, and optional spaces or tabs, and nothing else; such a line is converted to the
  page-break directive and every other line is kept.
\<close>

fun split_lf_from :: "pystr \<Rightarrow> pystr \<Rightarrow> pystr list" where
  "split_lf_from cur [] = [cur]"
| "split_lf_from cur (c # cs) =
     (if c = LF then cur # split_lf_from [] cs else split_lf_from (cur @ [c]) cs)"

definition split_lf :: "pystr \<Rightarrow> pystr list" where
  "split_lf s = split_lf_from [] s"

definition is_pagebreak_line :: "pystr \<Rightarrow> bool" where
  "is_pagebreak_line l \<longleftrightarrow>
     (let l1 = dropWhile is_blank l
      in startswith l1 (str ''---'') \<and> list_all is_blank (drop 3 l1))"

definition convert_line :: "pystr \<Rightarrow> pystr" where
  "convert_line l = (if is_pagebreak_line l then newpage else l)"

definition not_lf :: "nat \<Rightarrow> bool" where
  "not_lf c \<longleftrightarrow> c \<noteq> LF"

section \<open>Numbers and paths in text\<close>



text \<open>\<^verbatim>\<open>sep.join(xs)\<close>.\<close>

fun str_join :: "pystr \<Rightarrow> pystr list \<Rightarrow> pystr" where
  "str_join sep [] = []"
| "str_join sep [x] = x"
| "str_join sep (x # y # ys) = x @ sep @ str_join sep (y # ys)"

abbreviation QUOTE :: nat where "QUOTE \<equiv> 39"

record path =
  anchor :: pystr
  parts :: "pystr list"


definition str_path :: "nat \<Rightarrow> path \<Rightarrow> pystr" where
  "str_path sep p =
     (if anchor p = [] \<and> parts p = [] then str ''.'' else anchor p @ str_join [sep] (parts p))"


section \<open>The world outside the script\<close>

text \<open>
  An exception is known by its message \<^verbatim>\<open>str(e)\<close> and by the text that
  \<^verbatim>\<open>traceback.format_exc()\<close> gives for it. A finished process is the
  \<^verbatim>\<open>CompletedProcess\<close> of \<^verbatim>\<open>subprocess.run(..., capture_output=True, text=True)\<close>.
\<close>

datatype exn = Exn (message: pystr) (traceback: pystr)

record completed_process =
  returncode :: int
  stdout :: pystr
  stderr :: pystr

text \<open>
  The operating system is a parameter: a type \<open>'w\<close> of world states and the operations
  the script calls on it. \<open>os_which\<close> is \<^verbatim>\<open>shutil.which\<close>, \<open>os_exists\<close> is
  \<^verbatim>\<open>Path.exists\<close>, \<open>os_write_text\<close> is \<^verbatim>\<open>Path.write_text\<close> (\<open>Some e\<close> when it
  raises \<open>e\<close>) and \<open>os_run\<close> is \<^verbatim>\<open>subprocess.run\<close> on an argument vector (\<open>Inl e\<close>
  when the process cannot be started and \<open>e\<close> is raised). \<open>os_path_of_str\<close> is the
  constructor \<^verbatim>\<open>Path(text)\<close> of the platform's flavour.
\<close>

record 'w os =
  os_sep :: nat
  os_path_of_str :: "pystr \<Rightarrow> path"
  os_which :: "'w \<Rightarrow> pystr \<Rightarrow> pystr option"
  os_exists :: "'w \<Rightarrow> path \<Rightarrow> bool"
  os_write_text :: "'w \<Rightarrow> path \<Rightarrow> pystr \<Rightarrow> exn option \<times> 'w"
  os_run :: "'w \<Rightarrow> pystr list \<Rightarrow> (exn + completed_process) \<times> 'w"

text \<open>
  The state threaded through the script: the world, the messages given to
  \<^verbatim>\<open>log_print\<close> so far, and the argument vectors given to \<^verbatim>\<open>subprocess.run\<close>
  so far, one for each call. The log sink is taken to be reliable: \<^verbatim>\<open>log_print\<close>
  itself does not raise.
\<close>

record 'w st =
  world :: 'w
  log :: "pystr list"
  launched :: "pystr list list"

definition log_print :: "pystr \<Rightarrow> 'w st \<Rightarrow> 'w st" where
  "log_print msg s = s\<lparr>log := log s @ [msg]\<rparr>"

definition subprocess_run :: "'w os \<Rightarrow> pystr list \<Rightarrow> 'w st \<Rightarrow> (exn + completed_process) \<times> 'w st" where
  "subprocess_run os cmd s =
     (case os_run os (world s) cmd of
        (r, w) \<Rightarrow> (r, s\<lparr>world := w, launched := launched s @ [cmd]\<rparr>))"

text \<open>
  \<^verbatim>\<open>
      if result.stdout.strip():
          log_print(result.stdout)
      if result.stderr.strip():
          log_print(result.stderr)
  \<close>
\<close>

definition log_output :: "completed_process \<Rightarrow> 'w st \<Rightarrow> 'w st" where
  "log_output result s =
     (let s1 = (if strip (stdout result) \<noteq> [] then log_print (stdout result) s else s)
      in if strip (stderr result) \<noteq> [] then log_print (stderr result) s1 else s1)"

section \<open>PDF conversion driver: \<^verbatim>\<open>run_pandoc_with_font_fallback\<close>\<close>

definition font_pairs :: "(pystr \<times> pystr) list" where
  "font_pairs =
     [(str ''Times New Roman'', str ''Consolas''),
      (str ''Cambria'', str ''Consolas''),
      (str ''Calibri'', str ''Consolas''),
      (str ''Arial'', str ''Consolas''),
      (str ''Times New Roman'', str ''Lucida Console''),
      (str ''Times New Roman'', str ''Courier New''),
      (str ''Times New Roman'', str ''Noto Sans Mono''),
      (str ''Times New Roman'', str ''DejaVu Sans Mono'')]"

text \<open>The argument vector of an attempt with a font pair, and that of the last attempt.\<close>

definition font_cmd :: "'w os \<Rightarrow> path \<Rightarrow> path \<Rightarrow> pystr \<Rightarrow> pystr \<times> pystr \<Rightarrow> pystr list" where
  "font_cmd os md_path pdf_path pandoc_exe fonts =
     [pandoc_exe, str_path (os_sep os) md_path, str ''-o'', str_path (os_sep os) pdf_path,
      str ''--pdf-engine=xelatex'',
      str ''-V'', str ''mainfont='' @ fst fonts,
      str ''-V'', str ''monofont='' @ snd fonts]"

definition default_cmd :: "'w os \<Rightarrow> path \<Rightarrow> path \<Rightarrow> pystr \<Rightarrow> pystr list" where
  "default_cmd os md_path pdf_path pandoc_exe =
     [pandoc_exe, str_path (os_sep os) md_path, str ''-o'', str_path (os_sep os) pdf_path,
      str ''--pdf-engine=xelatex'']"

text \<open>
  The loop \<^verbatim>\<open>for mainfont, monofont in font_pairs\<close>. The result is \<open>Some (Inr 0)\<close> when
  the loop returns 0, \<open>Some (Inl e)\<close> when \<^verbatim>\<open>subprocess.run\<close> raises \<open>e\<close> (nothing in
  the function catches it), and \<open>None\<close> when the loop ends with every pair tried.
\<close>

fun try_font_pairs ::
  "'w os \<Rightarrow> path \<Rightarrow> path \<Rightarrow> pystr \<Rightarrow> (pystr \<times> pystr) list \<Rightarrow> 'w st \<Rightarrow> (exn + int) option \<times> 'w st" where
  "try_font_pairs os md_path pdf_path pandoc_exe [] s = (None, s)"
| "try_font_pairs os md_path pdf_path pandoc_exe (fonts # rest) s =
     (let s1 = log_print ([128292] @ str '' Trying fonts -> mainfont='' @ [QUOTE] @ fst fonts
                  @ [QUOTE] @ str '', monofont='' @ [QUOTE] @ snd fonts @ [QUOTE]) s
      in case subprocess_run os (font_cmd os md_path pdf_path pandoc_exe fonts) s1 of
           (Inl e, s2) \<Rightarrow> (Some (Inl e), s2)
         | (Inr result, s2) \<Rightarrow>
             (let s3 = log_output result s2
              in if returncode result = 0 \<and> os_exists os (world s3) pdf_path
                 then (Some (Inr 0),
                       log_print ([9989] @ str '' PDF successfully generated with fonts: ''
                         @ fst fonts @ str '' / '' @ snd fonts) s3)
                 else try_font_pairs os md_path pdf_path pandoc_exe rest
                       (log_print ([9888, 65039] @ str '' Pandoc attempt failed with fonts: ''
                         @ fst fonts @ str '' / '' @ snd fonts) s3)))"

text \<open>
  \<^verbatim>\<open>if not shutil.which(pandoc_exe)\<close>: the result is \<^verbatim>\<open>None\<close>, or a string that is
  empty.
\<close>

definition not_found :: "pystr option \<Rightarrow> bool" where
  "not_found r \<longleftrightarrow> r = None \<or> r = Some []"

definition run_pandoc_with_font_fallback ::
  "'w os \<Rightarrow> path \<Rightarrow> path \<Rightarrow> pystr \<Rightarrow> 'w st \<Rightarrow> (exn + int) \<times> 'w st" where
  "run_pandoc_with_font_fallback os md_path pdf_path pandoc_exe s =
     (if not_found (os_which os (world s) pandoc_exe)
      then (Inr 127,
            log_print ([10060] @ str '' '' @ [QUOTE] @ pandoc_exe @ [QUOTE] @ str '' not found in PATH.'') s)
      else
        (case try_font_pairs os md_path pdf_path pandoc_exe font_pairs s of
           (Some r, s1) \<Rightarrow> (r, s1)
         | (None, s1) \<Rightarrow>
             (let s2 = log_print ([129666] @ str '' Falling back to Pandoc defaults (no explicit fonts).'') s1
              in case subprocess_run os (default_cmd os md_path pdf_path pandoc_exe) s2 of
                   (Inl e, s3) \<Rightarrow> (Inl e, s3)
                 | (Inr result, s3) \<Rightarrow> (Inr (returncode result), log_output result s3))))"

text \<open>
  For stating what the driver does: the outcomes of starting the commands \<open>cmds\<close> one
  after the other from the world \<open>w\<close> (each with the world it leaves), the world after
  all of them, and the two ways an attempt can end when its process returns. An attempt
  succeeds when the exit status is zero and the output file exists afterwards.
\<close>

fun run_all :: "'w os \<Rightarrow> 'w \<Rightarrow> pystr list list \<Rightarrow> ((exn + completed_process) \<times> 'w) list" where
  "run_all os w [] = []"
| "run_all os w (cmd # cmds) = os_run os w cmd # run_all os (snd (os_run os w cmd)) cmds"


definition attempt_ok :: "'w os \<Rightarrow> path \<Rightarrow> (exn + completed_process) \<times> 'w \<Rightarrow> bool" where
  "attempt_ok os pdf_path a =
     (case a of
        (Inr result, w) \<Rightarrow> returncode result = 0 \<and> os_exists os w pdf_path
      | (Inl e, w) \<Rightarrow> False)"

definition attempt_failed :: "'w os \<Rightarrow> path \<Rightarrow> (exn + completed_process) \<times> 'w \<Rightarrow> bool" where
  "attempt_failed os pdf_path a =
     (case a of
        (Inr result, w) \<Rightarrow> returncode result \<noteq> 0 \<or> \<not> os_exists os w pdf_path
      | (Inl e, w) \<Rightarrow> False)"

text \<open>The nine commands of a run in which no attempt succeeds, in their order.\<close>

definition pandoc_cmds :: "'w os \<Rightarrow> path \<Rightarrow> path \<Rightarrow> pystr \<Rightarrow> pystr list list" where
  "pandoc_cmds os md_path pdf_path pandoc_exe =
     map (font_cmd os md_path pdf_path pandoc_exe) font_pairs
       @ [default_cmd os md_path pdf_path pandoc_exe]"

section \<open>Renderer worker: \<^verbatim>\<open>process_uml\<close>\<close>








section \<open>Document rewriter: the loop of the main workflow\<close>

datatype block_kind = Fenced | StartEnd

record block =
  span :: "nat \<times> nat"
  original :: pystr
  code :: pystr
  kind :: block_kind








section \<open>A scripted world for the worked examples\<close>

text \<open>
  A world that counts the processes started so far. The process started in world
  \<open>bad\<close> cannot be started and raises; the one started in world \<open>good\<close> exits with
  status 0, every other one with status 1, and each writes a line to its standard error;
  the files asked for exist in every world after \<open>good\<close>. Only \<^verbatim>\<open>pandoc\<close> is on the
  search path. The paths are those of the script's configuration.
\<close>

definition scripted_os :: "nat \<Rightarrow> nat \<Rightarrow> nat os" where
  "scripted_os good bad =
     \<lparr>os_sep = BACKSLASH,
      os_path_of_str = (\<lambda>t. \<lparr>anchor = [], parts = [t]\<rparr>),
      os_which = (\<lambda>w exe. if exe = str ''pandoc'' then Some (str ''C:/bin/pandoc.exe'') else None),
      os_exists = (\<lambda>w p. good < w),
      os_write_text = (\<lambda>w p t. (None, w)),
      os_run = (\<lambda>w cmd.
        if w = bad then (Inl (Exn (str ''cannot start'') (str ''Traceback'')), Suc w)
        else (Inr \<lparr>returncode = (if w = good then 0 else 1), stdout = [],
                   stderr = str ''boom\<newline>''\<rparr>, Suc w))\<rparr>"

definition cfg_temp_md :: path where
  "cfg_temp_md = \<lparr>anchor = str ''F:'' @ [BACKSLASH], parts = [str ''MD-Proj'', str ''book_tmp.md'']\<rparr>"

definition cfg_pdf_file :: path where
  "cfg_pdf_file = \<lparr>anchor = str ''F:'' @ [BACKSLASH], parts = [str ''MD-Proj'', str ''book.pdf'']\<rparr>"



definition start :: "nat st" where
  "start = \<lparr>world = 0, log = [], launched = []\<rparr>"




section \<open>Properties of the string helpers\<close>

lemma startswith_iff: "startswith s p \<longleftrightarrow> (\<exists>t. s = p @ t)"
  by (induction s p rule: startswith.induct) auto

lemma startswith_append [simp]: "startswith (p @ t) p"
  by (simp add: startswith_iff)

lemma contains_iff: "contains sub s \<longleftrightarrow> (\<exists>p t. s = p @ sub @ t)"
proof (induction s)
  case Nil
  show ?case by auto
next
  case (Cons c cs)
  show ?case
  proof
    assume "contains sub (c # cs)"
    then consider "startswith (c # cs) sub" | "contains sub cs" by auto
    then show "\<exists>p t. c # cs = p @ sub @ t"
    proof cases
      case 1
      then obtain t where "c # cs = sub @ t" by (auto simp: startswith_iff)
      then have "c # cs = [] @ sub @ t" by simp
      then show ?thesis by blast
    next
      case 2
      with Cons.IH obtain p t where "cs = p @ sub @ t" by blast
      then have "c # cs = (c # p) @ sub @ t" by simp
      then show ?thesis by blast
    qed
  next
    assume "\<exists>p t. c # cs = p @ sub @ t"
    then obtain p t where eq: "c # cs = p @ sub @ t" by blast
    show "contains sub (c # cs)"
    proof (cases p)
      case Nil
      with eq have "startswith (c # cs) sub" by (simp add: startswith_iff)
      then show ?thesis by simp
    next
      case (Cons a p')
      with eq have "cs = p' @ sub @ t" by simp
      with Cons.IH have "contains sub cs" by blast
      then show ?thesis by simp
    qed
  qed
qed

lemma lower_append: "lower (a @ b) = lower a @ lower b"
  by (simp add: lower_def)

subsection \<open>\<^verbatim>\<open>ensure_wrapped\<close>\<close>

lemma lower_start_marker: "lower (str ''@startuml\<newline>'') = str ''@startuml\<newline>''"
  by (simp add: lower_def lower_cp_def str_def)

lemma lower_end_marker: "lower (str ''\<newline>@enduml'') = str ''\<newline>@enduml''"
  by (simp add: lower_def lower_cp_def str_def)

lemma wrapped_contains_start:
  "contains (str ''@startuml'') (lower (str ''@startuml\<newline>'' @ src @ str ''\<newline>@enduml''))"
proof -
  have "lower (str ''@startuml\<newline>'' @ src @ str ''\<newline>@enduml'')
        = [] @ str ''@startuml'' @ ([LF] @ lower src @ str ''\<newline>@enduml'')"
    by (simp add: lower_append lower_start_marker lower_end_marker) (simp add: str_def)
  then show ?thesis unfolding contains_iff by blast
qed

lemma wrapped_contains_end:
  "contains (str ''@enduml'') (lower (str ''@startuml\<newline>'' @ src @ str ''\<newline>@enduml''))"
proof -
  have "lower (str ''@startuml\<newline>'' @ src @ str ''\<newline>@enduml'')
        = (str ''@startuml\<newline>'' @ lower src @ [LF]) @ str ''@enduml'' @ []"
    by (simp add: lower_append lower_start_marker lower_end_marker) (simp add: str_def)
  then show ?thesis unfolding contains_iff by blast
qed

text \<open>
  C8. \<^verbatim>\<open>ensure_wrapped\<close> is idempotent: for every input string, applying it twice gives
  the same result as applying it once.
\<close>

theorem ensure_wrapped_idempotent:
  "ensure_wrapped (ensure_wrapped src) = ensure_wrapped src"
proof (cases "contains (str ''@startuml'') (lower src) \<and> contains (str ''@enduml'') (lower src)")
  case True
  then have "ensure_wrapped src = src" by (simp add: ensure_wrapped_def)
  then show ?thesis by simp
next
  case False
  then have w: "ensure_wrapped src = str ''@startuml\<newline>'' @ src @ str ''\<newline>@enduml''"
    by (auto simp: ensure_wrapped_def)
  have "ensure_wrapped (str ''@startuml\<newline>'' @ src @ str ''\<newline>@enduml'')
        = str ''@startuml\<newline>'' @ src @ str ''\<newline>@enduml''"
    using wrapped_contains_start [of src] wrapped_contains_end [of src]
    by (simp add: ensure_wrapped_def)
  with w show ?thesis by simp
qed

theorem ensure_wrapped_idempotent_witness:
  "ensure_wrapped (str ''A -> B'') = str ''@startuml\<newline>A -> B\<newline>@enduml'' \<and>
   ensure_wrapped (ensure_wrapped (str ''A -> B'')) = str ''@startuml\<newline>A -> B\<newline>@enduml'' \<and>
   ensure_wrapped (str ''@StartUML\<newline>A -> B\<newline>@EndUML'') = str ''@StartUML\<newline>A -> B\<newline>@EndUML''"
proof -
  have once: "ensure_wrapped (str ''A -> B'') = str ''@startuml\<newline>A -> B\<newline>@enduml''"
    by (simp add: ensure_wrapped_def lower_def lower_cp_def str_def)
  have kept: "ensure_wrapped (str ''@StartUML\<newline>A -> B\<newline>@EndUML'') = str ''@StartUML\<newline>A -> B\<newline>@EndUML''"
    by (simp add: ensure_wrapped_def lower_def lower_cp_def str_def)
  from ensure_wrapped_idempotent [of "str ''A -> B''"] once kept show ?thesis by simp
qed

subsection \<open>\<^verbatim>\<open>escape_unescaped_dollars\<close>\<close>

lemma unescaped_dollar_at_from: "unescaped_dollar_at s i = unescaped_from None s i"
  by (auto simp: unescaped_dollar_at_def unescaped_from_def)

lemma unescaped_from_Suc:
  "unescaped_from prev (c # cs) (Suc i) = unescaped_from (Some c) cs i"
  by (cases i) (auto simp: unescaped_from_def)

lemma unescaped_from_0:
  "unescaped_from prev (c # cs) 0 \<longleftrightarrow> c = DOLLAR \<and> prev \<noteq> Some BACKSLASH"
  by (auto simp: unescaped_from_def)

lemma re_sub_dollar_unchanged:
  "(\<And>i. \<not> unescaped_from prev s i) \<Longrightarrow> re_sub_dollar prev s = s"
proof (induction s arbitrary: prev)
  case Nil
  show ?case by simp
next
  case (Cons c cs)
  from Cons.prems [of 0] have head: "\<not> (c = DOLLAR \<and> prev \<noteq> Some BACKSLASH)"
    by (simp add: unescaped_from_0)
  have "\<And>i. \<not> unescaped_from (Some c) cs i"
    using Cons.prems unescaped_from_Suc by blast
  then have "re_sub_dollar (Some c) cs = cs" by (rule Cons.IH)
  with head show ?case by auto
qed

lemma re_sub_dollar_single:
  "unescaped_from prev s i \<Longrightarrow> (\<And>j. unescaped_from prev s j \<Longrightarrow> j = i) \<Longrightarrow>
   re_sub_dollar prev s = take i s @ [BACKSLASH] @ drop i s"
proof (induction s arbitrary: prev i)
  case Nil
  then show ?case by (simp add: unescaped_from_def)
next
  case (Cons c cs)
  show ?case
  proof (cases i)
    case 0
    with Cons.prems(1) have head: "c = DOLLAR \<and> prev \<noteq> Some BACKSLASH"
      by (simp add: unescaped_from_0)
    have "\<And>j. \<not> unescaped_from (Some c) cs j"
    proof
      fix j assume "unescaped_from (Some c) cs j"
      then have "unescaped_from prev (c # cs) (Suc j)" by (simp add: unescaped_from_Suc)
      then have "Suc j = i" by (rule Cons.prems(2))
      with 0 show False by simp
    qed
    then have "re_sub_dollar (Some c) cs = cs" by (rule re_sub_dollar_unchanged)
    with head 0 show ?thesis by simp
  next
    case (Suc k)
    have head: "\<not> (c = DOLLAR \<and> prev \<noteq> Some BACKSLASH)"
    proof
      assume "c = DOLLAR \<and> prev \<noteq> Some BACKSLASH"
      then have "unescaped_from prev (c # cs) 0" by (simp add: unescaped_from_0)
      then have "0 = i" by (rule Cons.prems(2))
      with Suc show False by simp
    qed
    from Cons.prems(1) Suc have at_k: "unescaped_from (Some c) cs k"
      by (simp add: unescaped_from_Suc)
    have only_k: "\<And>j. unescaped_from (Some c) cs j \<Longrightarrow> j = k"
    proof -
      fix j assume "unescaped_from (Some c) cs j"
      then have "unescaped_from prev (c # cs) (Suc j)" by (simp add: unescaped_from_Suc)
      then have "Suc j = i" by (rule Cons.prems(2))
      with Suc show "j = k" by simp
    qed
    from at_k only_k have "re_sub_dollar (Some c) cs = take k cs @ [BACKSLASH] @ drop k cs"
      by (rule Cons.IH)
    with head Suc show ?thesis by auto
  qed
qed

lemma re_sub_dollar_idem: "re_sub_dollar prev (re_sub_dollar prev s) = re_sub_dollar prev s"
  by (induction s arbitrary: prev) auto

lemma re_sub_dollar_escaped:
  "\<not> unescaped_from prev (re_sub_dollar prev s) i"
proof (induction s arbitrary: prev i)
  case Nil
  show ?case by (simp add: unescaped_from_def)
next
  case (Cons c cs)
  show ?case
  proof (cases "c = DOLLAR \<and> prev \<noteq> Some BACKSLASH")
    case True
    then have out: "re_sub_dollar prev (c # cs) = BACKSLASH # DOLLAR # re_sub_dollar (Some DOLLAR) cs"
      by simp
    show ?thesis
    proof (cases i)
      case 0
      with out show ?thesis by (simp add: unescaped_from_0)
    next
      case (Suc k)
      show ?thesis
      proof (cases k)
        case 0
        with Suc out show ?thesis by (simp add: unescaped_from_Suc unescaped_from_0)
      next
        case (Suc m)
        with \<open>i = Suc k\<close> out Cons.IH [of "Some DOLLAR" m] show ?thesis
          by (simp add: unescaped_from_Suc)
      qed
    qed
  next
    case False
    then have out: "re_sub_dollar prev (c # cs) = c # re_sub_dollar (Some c) cs"
      by auto
    show ?thesis
    proof (cases i)
      case 0
      with out False show ?thesis by (auto simp: unescaped_from_0)
    next
      case (Suc k)
      with out Cons.IH [of "Some c" k] show ?thesis by (simp add: unescaped_from_Suc)
    qed
  qed
qed

text \<open>
  C6. A string with no unescaped dollar (no \<open>$\<close> that is not preceded by a backslash) is
  returned unchanged; a string with exactly one unescaped dollar, at position \<open>i\<close>, comes
  back with exactly one backslash added, immediately before that dollar.
\<close>

theorem escape_unescaped_dollars_spec:
  "((\<forall>i. \<not> unescaped_dollar_at s i) \<longrightarrow> escape_unescaped_dollars s = s) \<and>
   (unescaped_dollar_at s i \<and> (\<forall>j. unescaped_dollar_at s j \<longrightarrow> j = i) \<longrightarrow>
      escape_unescaped_dollars s = take i s @ [BACKSLASH] @ drop i s)"
proof (intro conjI impI)
  assume "\<forall>i. \<not> unescaped_dollar_at s i"
  then have "\<And>i. \<not> unescaped_from None s i" by (simp add: unescaped_dollar_at_from)
  then show "escape_unescaped_dollars s = s"
    unfolding escape_unescaped_dollars_def by (rule re_sub_dollar_unchanged)
next
  assume a: "unescaped_dollar_at s i \<and> (\<forall>j. unescaped_dollar_at s j \<longrightarrow> j = i)"
  then have "unescaped_from None s i" by (simp add: unescaped_dollar_at_from)
  moreover from a have "\<And>j. unescaped_from None s j \<Longrightarrow> j = i"
    by (simp add: unescaped_dollar_at_from)
  ultimately show "escape_unescaped_dollars s = take i s @ [BACKSLASH] @ drop i s"
    unfolding escape_unescaped_dollars_def by (rule re_sub_dollar_single)
qed

theorem escape_unescaped_dollars_spec_witness:
  "(\<forall>i. \<not> unescaped_dollar_at [97, BACKSLASH, DOLLAR, 98] i) \<and>
   escape_unescaped_dollars [97, BACKSLASH, DOLLAR, 98] = [97, BACKSLASH, DOLLAR, 98] \<and>
   unescaped_dollar_at [97, DOLLAR, 98, BACKSLASH, DOLLAR] 1 \<and>
   (\<forall>j. unescaped_dollar_at [97, DOLLAR, 98, BACKSLASH, DOLLAR] j = (j = 1)) \<and>
   escape_unescaped_dollars [97, DOLLAR, 98, BACKSLASH, DOLLAR]
     = [97, BACKSLASH, DOLLAR, 98, BACKSLASH, DOLLAR]"
proof -
  have none: "\<forall>i. \<not> unescaped_dollar_at [97, BACKSLASH, DOLLAR, 98] i"
    by (auto simp: unescaped_dollar_at_def nth_Cons split: nat.splits)
  have one: "\<forall>j. unescaped_dollar_at [97, DOLLAR, 98, BACKSLASH, DOLLAR] j = (j = 1)"
    by (auto simp: unescaped_dollar_at_def nth_Cons split: nat.splits)
  from none escape_unescaped_dollars_spec [of "[97, BACKSLASH, DOLLAR, 98]"]
  have a: "escape_unescaped_dollars [97, BACKSLASH, DOLLAR, 98] = [97, BACKSLASH, DOLLAR, 98]"
    by blast
  from one escape_unescaped_dollars_spec [of "[97, DOLLAR, 98, BACKSLASH, DOLLAR]" 1]
  have b: "escape_unescaped_dollars [97, DOLLAR, 98, BACKSLASH, DOLLAR]
           = [97, BACKSLASH, DOLLAR, 98, BACKSLASH, DOLLAR]"
    by simp
  from none one a b show ?thesis by simp
qed

text \<open>
  C9. The transform is idempotent on every input string, not only on escaped input:
  applying it twice gives the same result as applying it once, because in its output
  every \<open>$\<close> is preceded by a backslash (no position of the output holds an unescaped
  dollar).
\<close>

theorem escape_unescaped_dollars_idempotent:
  "escape_unescaped_dollars (escape_unescaped_dollars s) = escape_unescaped_dollars s \<and>
   (\<forall>i. \<not> unescaped_dollar_at (escape_unescaped_dollars s) i)"
  by (simp add: escape_unescaped_dollars_def re_sub_dollar_idem unescaped_dollar_at_from
      re_sub_dollar_escaped)

theorem escape_unescaped_dollars_idempotent_witness:
  "escape_unescaped_dollars [DOLLAR, DOLLAR, 97, BACKSLASH, DOLLAR]
     = [BACKSLASH, DOLLAR, BACKSLASH, DOLLAR, 97, BACKSLASH, DOLLAR] \<and>
   escape_unescaped_dollars (escape_unescaped_dollars [DOLLAR, DOLLAR, 97, BACKSLASH, DOLLAR])
     = [BACKSLASH, DOLLAR, BACKSLASH, DOLLAR, 97, BACKSLASH, DOLLAR] \<and>
   \<not> unescaped_dollar_at (escape_unescaped_dollars [DOLLAR, DOLLAR, 97, BACKSLASH, DOLLAR]) 1"
proof -
  have once: "escape_unescaped_dollars [DOLLAR, DOLLAR, 97, BACKSLASH, DOLLAR]
     = [BACKSLASH, DOLLAR, BACKSLASH, DOLLAR, 97, BACKSLASH, DOLLAR]"
    by (simp add: escape_unescaped_dollars_def)
  from escape_unescaped_dollars_idempotent [of "[DOLLAR, DOLLAR, 97, BACKSLASH, DOLLAR]"] once
  show ?thesis by simp
qed

subsection \<open>\<^verbatim>\<open>split_yaml_header\<close>\<close>

lemma concat_splitlines_from: "concat (splitlines_from cur s) = cur @ s"
  by (induction cur s rule: splitlines_from.induct) (auto split: list.splits)

lemma concat_splitlines: "concat (splitlines s) = s"
  by (simp add: splitlines_def concat_splitlines_from)

lemma splitlines_delimiter:
  "splitlines (str ''---\<newline>'' @ t) = str ''---\<newline>'' # splitlines t"
  by (simp add: splitlines_def str_def is_linebreak_def split: list.splits)

lemma scan_header_Some:
  "scan_header acc ls = Some (h, c, r) \<Longrightarrow> acc @ ls = h @ c # r"
proof (induction ls arbitrary: acc)
  case Nil
  then show ?case by simp
next
  case (Cons a ls)
  show ?case
  proof (cases "is_closing_delimiter a")
    case True
    with Cons.prems show ?thesis by simp
  next
    case False
    with Cons.prems have "scan_header (acc @ [a]) ls = Some (h, c, r)" by simp
    then have "(acc @ [a]) @ ls = h @ c # r" by (rule Cons.IH)
    then show ?thesis by simp
  qed
qed

lemma scan_header_None: "scan_header acc ls = None \<longleftrightarrow> \<not> list_ex is_closing_delimiter ls"
  by (induction ls arbitrary: acc) auto

lemma split_yaml_header_detected:
  assumes "header_detected md_text"
  shows "\<exists>h c r. scan_header [] (tl (splitlines (lstrip_bom md_text))) = Some (h, c, r) \<and>
           split_yaml_header md_text = (str ''---\<newline>'' @ concat h @ c, concat r)"
proof -
  let ?ls = "tl (splitlines (lstrip_bom md_text))"
  from assms have "scan_header [] ?ls \<noteq> None"
    by (simp add: header_detected_def closing_found_def scan_header_None)
  then obtain h c r where sc: "scan_header [] ?ls = Some (h, c, r)" by auto
  with assms have "split_yaml_header md_text = (str ''---\<newline>'' @ concat h @ c, concat r)"
    by (simp add: split_yaml_header_def header_detected_def)
  with sc show ?thesis by blast
qed

lemma split_yaml_header_concat:
  assumes "header_detected md_text"
  shows "fst (split_yaml_header md_text) @ snd (split_yaml_header md_text)
         = str ''---\<newline>'' @ concat (tl (splitlines (lstrip_bom md_text)))"
proof -
  from split_yaml_header_detected [OF assms] obtain h c r
    where sc: "scan_header [] (tl (splitlines (lstrip_bom md_text))) = Some (h, c, r)"
      and res: "split_yaml_header md_text = (str ''---\<newline>'' @ concat h @ c, concat r)"
    by blast
  from scan_header_Some [OF sc] have "tl (splitlines (lstrip_bom md_text)) = h @ c # r" by simp
  with res show ?thesis by simp
qed

lemma split_yaml_header_undetected:
  "\<not> header_detected md_text \<Longrightarrow> split_yaml_header md_text = ([], md_text)"
proof (cases "opens_header (lstrip_bom md_text)")
  case False
  then show ?thesis by (simp add: split_yaml_header_def)
next
  case True
  assume "\<not> header_detected md_text"
  with True have "scan_header [] (tl (splitlines (lstrip_bom md_text))) = None"
    by (simp add: header_detected_def closing_found_def scan_header_None)
  with True show ?thesis by (simp add: split_yaml_header_def)
qed

text \<open>Unfolding these evaluates the header functions on a concrete text.\<close>

lemmas yaml_eval = str_def header_detected_def closing_found_def opens_header_def
  lstrip_bom_def splitlines_def is_linebreak_def is_closing_delimiter_def strip_def
  is_space_def split_yaml_header_def

text \<open>
  C1, as the code has it. When a header is detected and the text, after its leading
  byte-order marks are dropped, opens with the line \<^verbatim>\<open>---\n\<close>, the returned header
  followed by the returned body is that text: the input without its leading byte-order
  marks, and so the input itself when it has none.
\<close>

theorem split_yaml_header_roundtrip:
  assumes "header_detected md_text"
    and "startswith (lstrip_bom md_text) (str ''---\<newline>'')"
  shows "fst (split_yaml_header md_text) @ snd (split_yaml_header md_text) = lstrip_bom md_text"
proof -
  from assms(2) obtain t where t: "lstrip_bom md_text = str ''---\<newline>'' @ t"
    by (auto simp: startswith_iff)
  then have "tl (splitlines (lstrip_bom md_text)) = splitlines t"
    by (simp add: splitlines_delimiter)
  then have "str ''---\<newline>'' @ concat (tl (splitlines (lstrip_bom md_text))) = lstrip_bom md_text"
    by (simp add: concat_splitlines t)
  with split_yaml_header_concat [OF assms(1)] show ?thesis by simp
qed

theorem split_yaml_header_roundtrip_witness:
  "header_detected (str ''---\<newline>title: x\<newline>---\<newline>body\<newline>'') \<and>
   startswith (lstrip_bom (str ''---\<newline>title: x\<newline>---\<newline>body\<newline>'')) (str ''---\<newline>'') \<and>
   split_yaml_header (str ''---\<newline>title: x\<newline>---\<newline>body\<newline>'')
     = (str ''---\<newline>title: x\<newline>---\<newline>'', str ''body\<newline>'') \<and>
   fst (split_yaml_header (str ''---\<newline>title: x\<newline>---\<newline>body\<newline>''))
     @ snd (split_yaml_header (str ''---\<newline>title: x\<newline>---\<newline>body\<newline>''))
     = lstrip_bom (str ''---\<newline>title: x\<newline>---\<newline>body\<newline>'')"
proof -
  let ?md = "str ''---\<newline>title: x\<newline>---\<newline>body\<newline>''"
  have d: "header_detected ?md" by (simp add: yaml_eval)
  have o: "startswith (lstrip_bom ?md) (str ''---\<newline>'')" by (simp add: yaml_eval)
  have v: "split_yaml_header ?md = (str ''---\<newline>title: x\<newline>---\<newline>'', str ''body\<newline>'')"
    by (simp add: yaml_eval)
  from d o v split_yaml_header_roundtrip [OF d o] show ?thesis by simp
qed

text \<open>
  The claim as stated fails on an input that starts with a byte-order mark: the header
  is detected, and header and body together lack the mark.
\<close>

theorem split_yaml_header_roundtrip_counterexample:
  "header_detected (BOM # str ''---\<newline>---\<newline>'') \<and>
   split_yaml_header (BOM # str ''---\<newline>---\<newline>'') = (str ''---\<newline>---\<newline>'', []) \<and>
   fst (split_yaml_header (BOM # str ''---\<newline>---\<newline>''))
     @ snd (split_yaml_header (BOM # str ''---\<newline>---\<newline>''))
     \<noteq> BOM # str ''---\<newline>---\<newline>''"
proof -
  have d: "header_detected (BOM # str ''---\<newline>---\<newline>'')" by (simp add: yaml_eval)
  have v: "split_yaml_header (BOM # str ''---\<newline>---\<newline>'') = (str ''---\<newline>---\<newline>'', [])"
    by (simp add: yaml_eval)
  from d v show ?thesis by (simp add: str_def)
qed

text \<open>
  C10, as the code has it. When the text (after its leading byte-order marks are
  dropped) opens with a delimiter line and no later line is a closing delimiter, the
  header is empty and the body is the original text itself, unchanged, with any leading
  byte-order mark still in place; the page-break stage then treats the whole document,
  opening delimiter line included, as body.
\<close>

theorem split_yaml_header_unclosed:
  assumes "opens_header (lstrip_bom md_text)"
    and "\<not> closing_found (lstrip_bom md_text)"
  shows "split_yaml_header md_text = ([], md_text) \<and>
         apply_page_breaks md_text = re_sub_pagebreak True md_text"
proof -
  from assms(2) have "\<not> header_detected md_text" by (simp add: header_detected_def)
  then have "split_yaml_header md_text = ([], md_text)" by (rule split_yaml_header_undetected)
  then show ?thesis by (simp add: apply_page_breaks_def)
qed

lemmas pagebreak_eval = apply_page_breaks_def match_pagebreak_def is_blank_def newpage_def

theorem split_yaml_header_unclosed_witness:
  "opens_header (lstrip_bom (str ''---\<newline>title: x\<newline>body\<newline>'')) \<and>
   \<not> closing_found (lstrip_bom (str ''---\<newline>title: x\<newline>body\<newline>'')) \<and>
   split_yaml_header (str ''---\<newline>title: x\<newline>body\<newline>'')
     = ([], str ''---\<newline>title: x\<newline>body\<newline>'') \<and>
   apply_page_breaks (str ''---\<newline>title: x\<newline>body\<newline>'')
     = newpage @ str ''\<newline>title: x\<newline>body\<newline>''"
proof -
  let ?md = "str ''---\<newline>title: x\<newline>body\<newline>''"
  have o: "opens_header (lstrip_bom ?md)" by (simp add: yaml_eval)
  have c: "\<not> closing_found (lstrip_bom ?md)" by (simp add: yaml_eval)
  have p: "re_sub_pagebreak True ?md = newpage @ str ''\<newline>title: x\<newline>body\<newline>''"
    by (simp add: pagebreak_eval str_def)
  from o c p split_yaml_header_unclosed [OF o c] show ?thesis by simp
qed

text \<open>
  The claim as stated fails on an input that starts with a byte-order mark: the body
  returned is the input with its mark, not the text without it.
\<close>

theorem split_yaml_header_unclosed_counterexample:
  "opens_header (lstrip_bom (BOM # str ''---\<newline>body\<newline>'')) \<and>
   \<not> closing_found (lstrip_bom (BOM # str ''---\<newline>body\<newline>'')) \<and>
   lstrip_bom (BOM # str ''---\<newline>body\<newline>'') = str ''---\<newline>body\<newline>'' \<and>
   snd (split_yaml_header (BOM # str ''---\<newline>body\<newline>'')) = BOM # str ''---\<newline>body\<newline>'' \<and>
   snd (split_yaml_header (BOM # str ''---\<newline>body\<newline>''))
     \<noteq> lstrip_bom (BOM # str ''---\<newline>body\<newline>'')"
  by (simp add: yaml_eval)

subsection \<open>\<^verbatim>\<open>apply_page_breaks\<close>\<close>

lemma split_lf_from_unfold:
  "split_lf_from cur s =
     (cur @ takeWhile not_lf s) #
       (case dropWhile not_lf s of [] \<Rightarrow> [] | c # rest \<Rightarrow> split_lf_from [] rest)"
  by (induction s arbitrary: cur) (simp_all add: not_lf_def)

lemma split_lf_from_nonempty: "split_lf_from cur s \<noteq> []"
  by (induction s arbitrary: cur) simp_all

lemma str_join_Cons: "xs \<noteq> [] \<Longrightarrow> str_join sep (x # xs) = x @ sep @ str_join sep xs"
  by (cases xs) simp_all

lemma re_sub_pagebreak_mid:
  "re_sub_pagebreak False s =
     takeWhile not_lf s @
       (case dropWhile not_lf s of [] \<Rightarrow> [] | c # rest \<Rightarrow> LF # re_sub_pagebreak True rest)"
  by (induction s) (simp_all add: not_lf_def)

lemma dropWhile_blank_line:
  assumes "r = [] \<or> hd r = LF"
  shows "dropWhile is_blank (l @ r) = dropWhile is_blank l @ r"
proof (cases "list_all is_blank l")
  case False
  then obtain x where "x \<in> set l" "\<not> is_blank x" by (auto simp: list_all_iff)
  then show ?thesis by (rule dropWhile_append1)
next
  case True
  then have "\<forall>x\<in>set l. is_blank x" by (simp add: list_all_iff)
  then have "dropWhile is_blank (l @ r) = dropWhile is_blank r" "dropWhile is_blank l = []"
    by (simp_all add: dropWhile_append2)
  moreover from assms have "dropWhile is_blank r = r"
    by (cases r) (auto simp: is_blank_def)
  ultimately show ?thesis by simp
qed

lemma startswith_hyphens_line:
  assumes "r = [] \<or> hd r = LF"
  shows "startswith (l @ r) (str ''---'') = startswith l (str ''---'')"
proof (cases l)
  case Nil
  with assms show ?thesis by (cases r) (auto simp: str_def)
next
  case l1: (Cons a la)
  show ?thesis
  proof (cases la)
    case Nil
    with l1 assms show ?thesis by (cases r) (auto simp: str_def)
  next
    case l2: (Cons b lb)
    show ?thesis
    proof (cases lb)
      case Nil
      with l1 l2 assms show ?thesis by (cases r) (auto simp: str_def)
    next
      case (Cons c lc)
      with l1 l2 show ?thesis by (simp add: str_def)
    qed
  qed
qed

lemma startswith_hyphens_length: "startswith l (str ''---'') \<Longrightarrow> 3 \<le> length l"
  by (auto simp: startswith_iff str_def)

lemma match_pagebreak_line:
  "match_pagebreak s =
     (if is_pagebreak_line (takeWhile not_lf s) then Some (dropWhile not_lf s) else None)"
proof -
  define l where "l = takeWhile not_lf s"
  define r where "r = dropWhile not_lf s"
  define l1 where "l1 = dropWhile is_blank l"
  have s: "s = l @ r" by (simp add: l_def r_def)
  have r: "r = [] \<or> hd r = LF"
    using hd_dropWhile [of not_lf s] by (auto simp: r_def not_lf_def)
  have no_lf: "\<forall>x\<in>set l. x \<noteq> LF"
    using set_takeWhileD [of _ not_lf s] by (auto simp: l_def not_lf_def)
  have s1: "dropWhile is_blank s = l1 @ r"
    unfolding s l1_def using r by (rule dropWhile_blank_line)
  have sw: "startswith (l1 @ r) (str ''---'') = startswith l1 (str ''---'')"
    using r by (rule startswith_hyphens_line)
  show ?thesis
  proof (cases "startswith l1 (str ''---'')")
    case False
    with sw s1 show ?thesis
      by (simp add: match_pagebreak_def is_pagebreak_line_def Let_def l_def [symmetric] l1_def [symmetric])
  next
    case True
    then have "3 \<le> length l1" by (rule startswith_hyphens_length)
    then have d3: "drop 3 (l1 @ r) = drop 3 l1 @ r" by simp
    have s2: "dropWhile is_blank (drop 3 l1 @ r) = dropWhile is_blank (drop 3 l1) @ r"
      using r by (rule dropWhile_blank_line)
    have "match_pagebreak s =
        (case dropWhile is_blank (drop 3 (l1 @ r)) of [] \<Rightarrow> Some []
         | c # cs \<Rightarrow> if c = LF then Some (c # cs) else None)"
      using True sw by (simp add: match_pagebreak_def Let_def s1 del: drop_append)
    then have m: "match_pagebreak s =
        (case dropWhile is_blank (drop 3 l1) @ r of [] \<Rightarrow> Some []
         | c # cs \<Rightarrow> if c = LF then Some (c # cs) else None)"
      by (simp only: d3 s2)
    have p: "is_pagebreak_line l = list_all is_blank (drop 3 l1)"
      using True by (simp add: is_pagebreak_line_def Let_def l1_def [symmetric])
    show ?thesis
    proof (cases "list_all is_blank (drop 3 l1)")
      case all: True
      then have "dropWhile is_blank (drop 3 l1) = []" by (simp add: list_all_iff)
      with m have "match_pagebreak s = (case r of [] \<Rightarrow> Some []
         | c # cs \<Rightarrow> if c = LF then Some (c # cs) else None)"
        by simp
      with r have "match_pagebreak s = Some r" by (cases r) auto
      with p all show ?thesis by (simp add: l_def [symmetric] r_def [symmetric])
    next
      case notall: False
      then have "dropWhile is_blank (drop 3 l1) \<noteq> []" by (simp add: list_all_iff)
      then obtain x xs where x: "dropWhile is_blank (drop 3 l1) = x # xs"
        by (cases "dropWhile is_blank (drop 3 l1)") auto
      then have "x \<in> set (dropWhile is_blank (drop 3 l1))" by simp
      then have "x \<in> set l"
        unfolding l1_def by (meson in_set_dropD set_dropWhileD)
      with no_lf have "x \<noteq> LF" by blast
      with m x have "match_pagebreak s = None" by simp
      with p notall show ?thesis by (simp add: l_def [symmetric])
    qed
  qed
qed

lemma re_sub_pagebreak_after_line:
  assumes "r = [] \<or> hd r = LF"
  shows "re_sub_pagebreak False r
         = (case r of [] \<Rightarrow> [] | c # rest \<Rightarrow> LF # re_sub_pagebreak True rest)"
  using assms by (cases r) auto

lemma re_sub_pagebreak_bol:
  "re_sub_pagebreak True s =
     (if s = [] then []
      else convert_line (takeWhile not_lf s) @
        (case dropWhile not_lf s of [] \<Rightarrow> [] | c # rest \<Rightarrow> LF # re_sub_pagebreak True rest))"
proof (cases s)
  case Nil
  then show ?thesis by simp
next
  case (Cons c cs)
  define l where "l = takeWhile not_lf s"
  define r where "r = dropWhile not_lf s"
  have r: "r = [] \<or> hd r = LF"
    using hd_dropWhile [of not_lf s] by (auto simp: r_def not_lf_def)
  have goal: "re_sub_pagebreak True s
      = convert_line l @ (case r of [] \<Rightarrow> [] | c # rest \<Rightarrow> LF # re_sub_pagebreak True rest)"
  proof (cases "is_pagebreak_line l")
    case True
    then have "match_pagebreak (c # cs) = Some r"
      using match_pagebreak_line [of s] Cons by (simp add: l_def r_def)
    then have "re_sub_pagebreak True s = newpage @ re_sub_pagebreak False r"
      using Cons by simp
    with re_sub_pagebreak_after_line [OF r] True show ?thesis
      by (simp add: convert_line_def)
  next
    case False
    then have "match_pagebreak (c # cs) = None"
      using match_pagebreak_line [of s] Cons by (simp add: l_def)
    then have step: "re_sub_pagebreak True s = c # re_sub_pagebreak (c = LF) cs"
      using Cons by simp
    show ?thesis
    proof (cases "c = LF")
      case True
      with Cons have "l = []" "r = c # cs" by (simp_all add: l_def r_def not_lf_def)
      with step True False show ?thesis by (simp add: convert_line_def)
    next
      case neq: False
      with Cons have l: "l = c # takeWhile not_lf cs" and r': "r = dropWhile not_lf cs"
        by (simp_all add: l_def r_def not_lf_def)
      from step neq have "re_sub_pagebreak True s = c # re_sub_pagebreak False cs" by simp
      then have "re_sub_pagebreak True s = c # takeWhile not_lf cs @
          (case dropWhile not_lf cs of [] \<Rightarrow> [] | c # rest \<Rightarrow> LF # re_sub_pagebreak True rest)"
        by (simp only: re_sub_pagebreak_mid [of cs])
      with False show ?thesis by (simp add: convert_line_def l r' [symmetric])
    qed
  qed
  from Cons goal show ?thesis by (simp add: l_def r_def)
qed

text \<open>
  The transform on a body, line by line: the body is cut at its line feeds, every
  page-break line becomes the directive, every other line stays, and the lines are
  joined by line feeds again.
\<close>

theorem re_sub_pagebreak_lines:
  "re_sub_pagebreak True body = str_join [LF] (map convert_line (split_lf body))"
proof (induction body rule: length_induct)
  case (1 s)
  define l where "l = takeWhile not_lf s"
  define r where "r = dropWhile not_lf s"
  have split: "split_lf s = l # (case r of [] \<Rightarrow> [] | c # rest \<Rightarrow> split_lf rest)"
    unfolding split_lf_def l_def r_def by (subst split_lf_from_unfold) simp
  show ?case
  proof (cases "s = []")
    case True
    then show ?thesis
      by (simp add: split_lf_def convert_line_def is_pagebreak_line_def str_def)
  next
    case False
    then have sub: "re_sub_pagebreak True s
        = convert_line l @ (case r of [] \<Rightarrow> [] | c # rest \<Rightarrow> LF # re_sub_pagebreak True rest)"
      by (simp add: re_sub_pagebreak_bol [of s] l_def r_def)
    show ?thesis
    proof (cases r)
      case Nil
      with sub split show ?thesis by simp
    next
      case (Cons c rest)
      have "length r \<le> length s" unfolding r_def by (rule length_dropWhile_le)
      with Cons have "length rest < length s" by simp
      with 1 have IH: "re_sub_pagebreak True rest = str_join [LF] (map convert_line (split_lf rest))"
        by blast
      have ne: "map convert_line (split_lf rest) \<noteq> []"
        by (simp add: split_lf_def split_lf_from_nonempty)
      from Cons sub split IH show ?thesis
        by (simp add: str_join_Cons [OF ne])
    qed
  qed
qed

text \<open>
  With a header that opens with the line \<^verbatim>\<open>---\n\<close>, the output starts with the header
  region as it stands in the text, delimiter lines included, and only the body behind it
  is transformed.
\<close>

theorem apply_page_breaks_lf_header:
  assumes "header_detected md_text"
    and "startswith (lstrip_bom md_text) (str ''---\<newline>'')"
  shows "lstrip_bom md_text = fst (split_yaml_header md_text) @ snd (split_yaml_header md_text) \<and>
         apply_page_breaks md_text
           = fst (split_yaml_header md_text)
             @ str_join [LF] (map convert_line (split_lf (snd (split_yaml_header md_text))))"
proof -
  from assms(2) obtain t where t: "lstrip_bom md_text = str ''---\<newline>'' @ t"
    by (auto simp: startswith_iff)
  then have "str ''---\<newline>'' @ concat (tl (splitlines (lstrip_bom md_text))) = lstrip_bom md_text"
    by (simp add: splitlines_delimiter concat_splitlines)
  with split_yaml_header_concat [OF assms(1)]
  have "fst (split_yaml_header md_text) @ snd (split_yaml_header md_text) = lstrip_bom md_text"
    by simp
  then show ?thesis
    by (simp add: apply_page_breaks_def re_sub_pagebreak_lines split: prod.splits)
qed

text \<open>
  C5 at a document with Windows line ends. The header region of the input is its first
  three lines; \<^verbatim>\<open>split_yaml_header\<close> accepts the opening line \<^verbatim>\<open>---\r\n\<close> and
  returns \<^verbatim>\<open>---\n\<close> in its place, so the output of \<^verbatim>\<open>apply_page_breaks\<close> no longer
  starts with the input's header region: the carriage return of the opening delimiter
  line is gone.
\<close>

theorem apply_page_breaks_crlf_header:
  "header_detected (str ''---'' @ [CR, LF] @ str ''title: x'' @ [CR, LF] @ str ''---'' @ [CR, LF] @ str ''body'' @ [CR, LF]) \<and>
   splitlines (str ''---'' @ [CR, LF] @ str ''title: x'' @ [CR, LF] @ str ''---'' @ [CR, LF] @ str ''body'' @ [CR, LF])
     = [str ''---'' @ [CR, LF], str ''title: x'' @ [CR, LF], str ''---'' @ [CR, LF], str ''body'' @ [CR, LF]] \<and>
   apply_page_breaks (str ''---'' @ [CR, LF] @ str ''title: x'' @ [CR, LF] @ str ''---'' @ [CR, LF] @ str ''body'' @ [CR, LF])
     = str ''---'' @ [LF] @ str ''title: x'' @ [CR, LF] @ str ''---'' @ [CR, LF] @ str ''body'' @ [CR, LF] \<and>
   startswith (apply_page_breaks (str ''---'' @ [CR, LF] @ str ''title: x'' @ [CR, LF] @ str ''---'' @ [CR, LF] @ str ''body'' @ [CR, LF]))
     (str ''---'' @ [CR, LF] @ str ''title: x'' @ [CR, LF] @ str ''---'' @ [CR, LF]) = False"
  by (simp add: yaml_eval pagebreak_eval)

subsection \<open>\<^verbatim>\<open>run_pandoc_with_font_fallback\<close>\<close>

lemma log_print_proj [simp]:
  "world (log_print m s) = world s" "launched (log_print m s) = launched s"
  by (simp_all add: log_print_def)

lemma log_output_proj [simp]:
  "world (log_output r s) = world s" "launched (log_output r s) = launched s"
  by (simp_all add: log_output_def Let_def)

lemma subprocess_run_proj:
  "fst (subprocess_run os cmd s) = fst (os_run os (world s) cmd)"
  "world (snd (subprocess_run os cmd s)) = snd (os_run os (world s) cmd)"
  "launched (snd (subprocess_run os cmd s)) = launched s @ [cmd]"
  by (simp_all add: subprocess_run_def split: prod.splits)


lemma length_run_all [simp]: "length (run_all os w cmds) = length cmds"
  by (induction cmds arbitrary: w) simp_all




text \<open>
  C7. When the converter executable is not resolvable on the search path, the driver
  returns the status 127, which is not the status of success, at once: it starts no
  process, for no font pair, and leaves the world as it was.
\<close>

theorem run_pandoc_not_found:
  assumes "not_found (os_which os (world s) pandoc_exe)"
  shows "fst (run_pandoc_with_font_fallback os md_path pdf_path pandoc_exe s) = Inr 127 \<and>
         fst (run_pandoc_with_font_fallback os md_path pdf_path pandoc_exe s) \<noteq> Inr 0 \<and>
         launched (snd (run_pandoc_with_font_fallback os md_path pdf_path pandoc_exe s)) = launched s \<and>
         world (snd (run_pandoc_with_font_fallback os md_path pdf_path pandoc_exe s)) = world s"
  using assms by (simp add: run_pandoc_with_font_fallback_def)


text \<open>Unfolding these evaluates the scripted world and the attempts made in it.\<close>

lemmas os_eval = scripted_os_def start_def attempt_ok_def attempt_failed_def pandoc_cmds_def
  font_pairs_def not_found_def

theorem run_pandoc_not_found_witness:
  "not_found (os_which (scripted_os 2 99) (world start) (str ''pandoc-x'')) \<and>
   fst (run_pandoc_with_font_fallback (scripted_os 2 99) cfg_temp_md cfg_pdf_file (str ''pandoc-x'') start)
     = Inr 127 \<and>
   launched (snd (run_pandoc_with_font_fallback (scripted_os 2 99) cfg_temp_md cfg_pdf_file (str ''pandoc-x'') start))
     = []"
proof -
  have nf: "not_found (os_which (scripted_os 2 99) (world start) (str ''pandoc-x''))"
    by (simp add: os_eval str_def)
  from run_pandoc_not_found [OF nf, of cfg_temp_md cfg_pdf_file] nf show ?thesis
    by (simp add: start_def)
qed


subsection \<open>\<^verbatim>\<open>process_uml\<close>\<close>






subsection \<open>The document rewriter\<close>










end
